theory Spec2Isabelle
  imports Complex_Main
begin

section \<open>The capacitor energy-system simulation (sim\_energy\_system\_cap.py)\<close>

text \<open>
  The script reads ten numbers, solves the node voltage of a solar cell, a storage
  capacitor with series resistance and a switched load once at start-up and once per
  time step, and collects the pairs (time, voltage) in the list \<open>log\<close>.

  Numbers: Python's \<open>float\<close> is modelled by \<^typ>\<open>real\<close>. Every comparison, branch,
  division-by-zero check and square-root domain check of the source is a branch of the
  model; rounding, overflow and the values inf and nan of binary floating point are not
  represented. The one rounding on which the control flow of a finished run depends, that
  of the time sum \<open>t_s += dt_s\<close>, is a parameter of the second form of the loop
  (\<open>run_loop_fl\<close>), over which the number of rows is stated. The concrete inputs evaluated below use values on which every operation of
  the run is exact in binary floating point as well (small integers and halves, perfect
  squares, a collecting area of 0, or of 10 where \<open>1336.1 * 10\<close> rounds to 13361).

  Errors: the script handles no exception, so a raise ends the run before \<open>log.csv\<close> is
  opened. A run is a value of \<open>error + \<dots>\<close>, with \<open>Inl\<close> for the raise.
\<close>

subsection \<open>Errors and the two partial operations\<close>

datatype error = ZeroDivisionError | ValueError

definition bind_err :: "error + 'a \<Rightarrow> ('a \<Rightarrow> error + 'b) \<Rightarrow> error + 'b" where
  "bind_err m f = (case m of Inl e \<Rightarrow> Inl e | Inr x \<Rightarrow> f x)"

text \<open>Python's \<open>a/b\<close> on floats raises ZeroDivisionError when \<open>b\<close> is zero.\<close>

definition py_div :: "real \<Rightarrow> real \<Rightarrow> error + real" where
  "py_div a b = (if b = 0 then Inl ZeroDivisionError else Inr (a / b))"

text \<open>\<open>math.sqrt\<close> raises ValueError (math domain error) on a negative argument.\<close>

definition math_sqrt :: "real \<Rightarrow> error + real" where
  "math_sqrt x = (if x < 0 then Inl ValueError else Inr (sqrt x))"

subsection \<open>Parameters and the script's variables\<close>

text \<open>The ten command-line arguments (lines 46-55), in their order.\<close>

record params =
  sa_m2 :: real
  eff :: real
  voc :: real
  c_f :: real
  r_esr :: real
  q0_c :: real
  p_on_w :: real
  v_thresh :: real
  dt_s :: real
  dur_s :: real

text \<open>
  The global variables the script assigns after parsing (lines 77-92). The list \<open>log\<close> of
  the source is the field \<open>log_l\<close> (\<open>log\<close> is the logarithm in HOL); a row
  \<open>[t_s, node_v]\<close> is a pair.
\<close>

record state =
  isc_a :: real
  i1_a :: real
  qt_c :: real
  p_mode_w :: real
  t_s :: real
  node_discr :: real
  node_v :: real
  log_l :: "(real \<times> real) list"

text \<open>Line 30: \<open>irrad = 1336.1\<close>.\<close>

definition irrad :: real where
  "irrad = 13361 / 10"

subsection \<open>Utility functions (lines 67-74)\<close>

definition calc_solar_current :: "real \<Rightarrow> real \<Rightarrow> real \<Rightarrow> real \<Rightarrow> error + real" where
  "calc_solar_current irr_w_m2 sa e v = py_div (irr_w_m2 * sa * e) v"

definition calc_node_discr :: "real \<Rightarrow> real \<Rightarrow> real \<Rightarrow> real \<Rightarrow> real \<Rightarrow> error + real" where
  "calc_node_discr q_c c i_a esr_ohm power_w =
     bind_err (py_div q_c c) (\<lambda>x. Inr ((x + i_a * esr_ohm)\<^sup>2 - 4 * power_w * esr_ohm))"

definition calc_node_voltage :: "real \<Rightarrow> real \<Rightarrow> real \<Rightarrow> real \<Rightarrow> real \<Rightarrow> error + real" where
  "calc_node_voltage disc q_c c i_a esr_ohm =
     bind_err (py_div q_c c) (\<lambda>x.
     bind_err (math_sqrt disc) (\<lambda>r. Inr ((x + i_a * esr_ohm + r) / 2)))"

subsection \<open>The node solve and the two mode corrections\<close>

text \<open>
  Lines 84-91 at start-up and lines 120-125 in the loop are the same statements: the
  discriminant with the present load power, the fallback to load power 0 when it is
  negative, and the node voltage. The result is the load power, the discriminant handed
  to \<open>calc_node_voltage\<close>, and the voltage.
\<close>

definition solve_node :: "params \<Rightarrow> real \<Rightarrow> real \<Rightarrow> real \<Rightarrow> error + (real \<times> real \<times> real)" where
  "solve_node P q i p =
     bind_err (calc_node_discr q (c_f P) i (r_esr P) p) (\<lambda>d.
     bind_err (if d < 0
               then bind_err (calc_node_discr q (c_f P) i (r_esr P) 0) (\<lambda>d'. Inr (0, d'))
               else Inr (p, d)) (\<lambda>(p', d').
     bind_err (calc_node_voltage d' q (c_f P) i (r_esr P)) (\<lambda>v. Inr (p', d', v))))"

text \<open>Lines 95-96 and 127-128: the solar cell gives no current at or above \<open>voc\<close>.\<close>

definition source_clamp :: "params \<Rightarrow> state \<Rightarrow> state" where
  "source_clamp P s =
     (if voc P \<le> node_v s \<and> i1_a s \<noteq> 0 then s\<lparr>i1_a := 0\<rparr> else s)"

text \<open>Lines 99-100 and 130-131: the load is off below the threshold voltage.\<close>

definition threshold_rule :: "params \<Rightarrow> state \<Rightarrow> state" where
  "threshold_rule P s = (if node_v s < v_thresh P then s\<lparr>p_mode_w := 0\<rparr> else s)"

subsection \<open>Start-up (lines 77-100)\<close>

definition init :: "params \<Rightarrow> error + state" where
  "init P =
     bind_err (calc_solar_current irrad (sa_m2 P) (eff P) (voc P)) (\<lambda>isc.
     bind_err (solve_node P (q0_c P) isc (p_on_w P)) (\<lambda>(p, d, v).
     Inr (threshold_rule P (source_clamp P
       \<lparr>isc_a = isc, i1_a = isc, qt_c = q0_c P, p_mode_w = p, t_s = 0,
        node_discr = d, node_v = v, log_l = [(0, v)]\<rparr>))))"

subsection \<open>One pass through the loop body (lines 106-134)\<close>

text \<open>
  Lines 106-125: the load current from the voltage of the previous pass, the charge update
  with its floor at 0, the solar current, the power-on rule, and the node solve.
\<close>

definition solve_step :: "params \<Rightarrow> state \<Rightarrow> error + state" where
  "solve_step P s =
     bind_err (py_div (p_mode_w s) (node_v s)) (\<lambda>i3_a.
     let q1 = qt_c s + (i1_a s - i3_a) * dt_s P;
         q = (if q1 < 0 then 0 else q1);
         i1 = (if 0 \<le> node_v s \<and> node_v s < voc P then isc_a s else 0);
         p1 = (if p_mode_w s = 0 \<and> node_v s \<ge> voc P then p_on_w P else p_mode_w s)
     in bind_err (solve_node P q i1 p1) (\<lambda>(p, d, v).
        Inr (s\<lparr>qt_c := q, i1_a := i1, p_mode_w := p, node_discr := d, node_v := v\<rparr>)))"

text \<open>
  Lines 133-134: the row is appended with the time before it is advanced. The sum is the
  exact one here; \<open>log_append_fl\<close> below has its rounding.
\<close>

definition log_append :: "params \<Rightarrow> state \<Rightarrow> state" where
  "log_append P s = s\<lparr>log_l := log_l s @ [(t_s s, node_v s)], t_s := t_s s + dt_s P\<rparr>"

definition loop_body :: "params \<Rightarrow> state \<Rightarrow> error + state" where
  "loop_body P s =
     bind_err (solve_step P s) (\<lambda>s1.
     Inr (log_append P (threshold_rule P (source_clamp P s1))))"

subsection \<open>The while loop (line 103) and the whole run\<close>

text \<open>
  The loop runs while the time of the last row is below \<open>dur_s\<close>. With \<open>dt_s \<le> 0\<close> and
  \<open>dur_s > 0\<close> it never ends, so the model counts passes: \<open>run_loop n\<close> allows \<open>n\<close>
  passes and is \<open>None\<close> when the loop would need another one.
\<close>

definition loop_cond :: "params \<Rightarrow> state \<Rightarrow> bool" where
  "loop_cond P s = (fst (last (log_l s)) < dur_s P)"

fun run_loop :: "nat \<Rightarrow> params \<Rightarrow> state \<Rightarrow> (error + state) option" where
  "run_loop 0 P s = (if loop_cond P s then None else Some (Inr s))"
| "run_loop (Suc n) P s =
     (if loop_cond P s
      then (case loop_body P s of Inl e \<Rightarrow> Some (Inl e) | Inr s' \<Rightarrow> run_loop n P s')
      else Some (Inr s))"

text \<open>The run: start-up, then the loop; the result is the finished \<open>log\<close>.\<close>

definition simulate :: "nat \<Rightarrow> params \<Rightarrow> (error + (real \<times> real) list) option" where
  "simulate n P =
     (case init P of
        Inl e \<Rightarrow> Some (Inl e)
      | Inr s0 \<Rightarrow>
          (case run_loop n P s0 of
             None \<Rightarrow> None
           | Some (Inl e) \<Rightarrow> Some (Inl e)
           | Some (Inr s) \<Rightarrow> Some (Inr (log_l s))))"

text \<open>
  The states at the head of the loop: the one start-up leaves, and the one each pass
  leaves when the loop condition let it run.
\<close>

inductive reach :: "params \<Rightarrow> state \<Rightarrow> bool" for P :: params where
  reach_init: "init P = Inr s \<Longrightarrow> reach P s"
| reach_step: "reach P s \<Longrightarrow> loop_cond P s \<Longrightarrow> loop_body P s = Inr s' \<Longrightarrow> reach P s'"


code_pred reach .


subsection \<open>The loop on doubles: the rounded time sum\<close>

text \<open>
  Line 134, \<open>t_s += dt_s\<close>, is an addition of doubles: the exact sum, rounded. The number
  of passes depends on the time column alone, so the loop is written once more with that
  rounding as a parameter \<open>rnd\<close>. Rows, loop condition and everything before line 133 are
  the ones above; with the identity for \<open>rnd\<close> these are \<open>log_append\<close>, \<open>loop_body\<close>,
  \<open>run_loop\<close> and \<open>simulate\<close>.
\<close>

definition log_append_fl :: "(real \<Rightarrow> real) \<Rightarrow> params \<Rightarrow> state \<Rightarrow> state" where
  "log_append_fl rnd P s =
     s\<lparr>log_l := log_l s @ [(t_s s, node_v s)], t_s := rnd (t_s s + dt_s P)\<rparr>"

definition loop_body_fl :: "(real \<Rightarrow> real) \<Rightarrow> params \<Rightarrow> state \<Rightarrow> error + state" where
  "loop_body_fl rnd P s =
     bind_err (solve_step P s) (\<lambda>s1.
     Inr (log_append_fl rnd P (threshold_rule P (source_clamp P s1))))"

fun run_loop_fl :: "(real \<Rightarrow> real) \<Rightarrow> nat \<Rightarrow> params \<Rightarrow> state \<Rightarrow> (error + state) option" where
  "run_loop_fl rnd 0 P s = (if loop_cond P s then None else Some (Inr s))"
| "run_loop_fl rnd (Suc n) P s =
     (if loop_cond P s
      then (case loop_body_fl rnd P s of
              Inl e \<Rightarrow> Some (Inl e)
            | Inr s' \<Rightarrow> run_loop_fl rnd n P s')
      else Some (Inr s))"

definition simulate_fl ::
    "(real \<Rightarrow> real) \<Rightarrow> nat \<Rightarrow> params \<Rightarrow> (error + (real \<times> real) list) option" where
  "simulate_fl rnd n P =
     (case init P of
        Inl e \<Rightarrow> Some (Inl e)
      | Inr s0 \<Rightarrow>
          (case run_loop_fl rnd n P s0 of
             None \<Rightarrow> None
           | Some (Inl e) \<Rightarrow> Some (Inl e)
           | Some (Inr s) \<Rightarrow> Some (Inr (log_l s))))"

text \<open>The value of \<open>t_s\<close> after \<open>k\<close> passes: \<open>k\<close> rounded additions of \<open>dt\<close> to 0.\<close>

fun time_sum :: "(real \<Rightarrow> real) \<Rightarrow> real \<Rightarrow> nat \<Rightarrow> real" where
  "time_sum rnd dt 0 = 0"
| "time_sum rnd dt (Suc k) = rnd (time_sum rnd dt k + dt)"

subsection \<open>Notions used in the statements\<close>


subsection \<open>Concrete inputs\<close>

text \<open>
  No sun, no load, capacitor at 1 V: every sample is 1 V. Step and duration are left
  open.
\<close>

definition P_steady :: "real \<Rightarrow> real \<Rightarrow> params" where
  "P_steady dt dur = \<lparr>sa_m2 = 0, eff = 1, voc = 4, c_f = 1, r_esr = 1, q0_c = 1, p_on_w = 0,
     v_thresh = 0, dt_s = dt, dur_s = dur\<rparr>"

text \<open>The state start-up leaves for \<open>P_steady\<close>.\<close>

definition s_steady :: state where
  "s_steady = \<lparr>isc_a = 0, i1_a = 0, qt_c = 1, p_mode_w = 0, t_s = 0, node_discr = 1,
     node_v = 1, log_l = [(0, 1)]\<rparr>"

text \<open>The same with open-circuit voltage 0.\<close>

definition P_voc0 :: params where
  "P_voc0 = \<lparr>sa_m2 = 0, eff = 1, voc = 0, c_f = 1, r_esr = 1, q0_c = 1, p_on_w = 0,
     v_thresh = 0, dt_s = 1, dur_s = 10\<rparr>"

text \<open>
  A load of 1 W that the capacitor at 1 V cannot supply through 1 Ohm: the first
  discriminant is \<open>1 - 4 = -3\<close>, the fallback one is 1.
\<close>

definition P_fallback :: params where
  "P_fallback = \<lparr>sa_m2 = 0, eff = 1, voc = 4, c_f = 1, r_esr = 1, q0_c = 1, p_on_w = 1,
     v_thresh = 0, dt_s = 1, dur_s = 1\<rparr>"

definition s_fallback :: state where
  "s_fallback = \<lparr>isc_a = 0, i1_a = 0, qt_c = 1, p_mode_w = 0, t_s = 0, node_discr = 1,
     node_v = 1, log_l = [(0, 1)]\<rparr>"

text \<open>An empty capacitor and no sun: the first voltage is 0.\<close>

definition P_zero :: params where
  "P_zero = \<lparr>sa_m2 = 0, eff = 1, voc = 4, c_f = 1, r_esr = 1, q0_c = 0, p_on_w = 1,
     v_thresh = 3, dt_s = 1, dur_s = 10\<rparr>"

definition s_zero :: state where
  "s_zero = \<lparr>isc_a = 0, i1_a = 0, qt_c = 0, p_mode_w = 0, t_s = 0, node_discr = 0,
     node_v = 0, log_l = [(0, 0)]\<rparr>"

text \<open>A negative initial charge, and a duration that lets no pass run.\<close>

definition P_negq :: params where
  "P_negq = \<lparr>sa_m2 = 0, eff = 1, voc = 4, c_f = 1, r_esr = 1, q0_c = - 1, p_on_w = 0,
     v_thresh = 0, dt_s = 1, dur_s = 0\<rparr>"

definition s_negq :: state where
  "s_negq = \<lparr>isc_a = 0, i1_a = 0, qt_c = - 1, p_mode_w = 0, t_s = 0, node_discr = 1,
     node_v = 0, log_l = [(0, 0)]\<rparr>"

text \<open>
  A 3 W load on 4 C with a step of 5 s: the load current of 1 A would take the charge to
  \<open>-1\<close>, and the floor sets it to 0.
\<close>

definition P_drain :: params where
  "P_drain = \<lparr>sa_m2 = 0, eff = 1, voc = 10, c_f = 1, r_esr = 1, q0_c = 4, p_on_w = 3,
     v_thresh = 3, dt_s = 5, dur_s = 5\<rparr>"

definition s_drain0 :: state where
  "s_drain0 = \<lparr>isc_a = 0, i1_a = 0, qt_c = 4, p_mode_w = 3, t_s = 0, node_discr = 4,
     node_v = 3, log_l = [(0, 3)]\<rparr>"

definition s_drain1 :: state where
  "s_drain1 = \<lparr>isc_a = 0, i1_a = 0, qt_c = 0, p_mode_w = 0, t_s = 5, node_discr = 0,
     node_v = 0, log_l = [(0, 3), (0, 0)]\<rparr>"

text \<open>
  Sun on a capacitor at 0.5 V with \<open>voc = 1\<close>: the short-circuit current is 13361 A, and
  one pass lifts the voltage above \<open>voc\<close>.
\<close>

definition P_sun :: params where
  "P_sun = \<lparr>sa_m2 = 10, eff = 1, voc = 1, c_f = 1, r_esr = 0, q0_c = 1 / 2, p_on_w = 0,
     v_thresh = 0, dt_s = 1, dur_s = 1\<rparr>"

definition s_sun0 :: state where
  "s_sun0 = \<lparr>isc_a = 13361, i1_a = 13361, qt_c = 1 / 2, p_mode_w = 0, t_s = 0,
     node_discr = 1 / 4, node_v = 1 / 2, log_l = [(0, 1 / 2)]\<rparr>"

definition s_sun1 :: state where
  "s_sun1 = \<lparr>isc_a = 13361, i1_a = 13361, qt_c = 26723 / 2, p_mode_w = 0, t_s = 0,
     node_discr = 714118729 / 4, node_v = 26723 / 2, log_l = [(0, 1 / 2)]\<rparr>"









subsection \<open>Invariants of a run without sun\<close>

text \<open>
  The voltage of a state is the node solve of its charge with solar current 0 and load
  power \<open>p\<close>.
\<close>

definition dark_solved :: "params \<Rightarrow> state \<Rightarrow> real \<Rightarrow> bool" where
  "dark_solved P s p \<longleftrightarrow>
     node_discr s = (qt_c s / c_f P)\<^sup>2 - 4 * p * r_esr P \<and> 0 \<le> node_discr s \<and>
     node_v s = (qt_c s / c_f P + sqrt (node_discr s)) / 2"



text \<open>
  The state after \<open>k\<close> passes: \<open>t_s\<close> is the \<open>k\<close>-th rounded sum, the time column is 0
  followed by the sums before it, and all of those but the last were below \<open>dur_s\<close>.
\<close>

definition at_pass :: "(real \<Rightarrow> real) \<Rightarrow> params \<Rightarrow> nat \<Rightarrow> state \<Rightarrow> bool" where
  "at_pass rnd P k s \<longleftrightarrow>
     t_s s = time_sum rnd (dt_s P) k \<and>
     map fst (log_l s) = 0 # map (time_sum rnd (dt_s P)) [0..<k] \<and>
     (\<forall>j. Suc j < k \<longrightarrow> time_sum rnd (dt_s P) j < dur_s P)"

section \<open>Basic facts about the operations\<close>

lemma bind_err_Inr_iff: "bind_err m f = Inr y \<longleftrightarrow> (\<exists>x. m = Inr x \<and> f x = Inr y)"
  by (cases m) (simp_all add: bind_err_def)

lemma bind_err_Inl_iff:
  "bind_err m f = Inl e \<longleftrightarrow> (m = Inl e \<or> (\<exists>x. m = Inr x \<and> f x = Inl e))"
  by (cases m) (simp_all add: bind_err_def)

lemma py_div_Inr_iff: "py_div a b = Inr x \<longleftrightarrow> (b \<noteq> 0 \<and> x = a / b)"
  by (auto simp: py_div_def)

lemma py_div_Inl_iff: "py_div a b = Inl e \<longleftrightarrow> (b = 0 \<and> e = ZeroDivisionError)"
  by (auto simp: py_div_def)

lemma calc_node_discr_Inr_iff:
  "calc_node_discr q c i r p = Inr d \<longleftrightarrow> (c \<noteq> 0 \<and> d = (q / c + i * r)\<^sup>2 - 4 * p * r)"
  by (auto simp: calc_node_discr_def bind_err_Inr_iff py_div_Inr_iff)

lemma calc_node_voltage_Inr_iff:
  "calc_node_voltage d q c i r = Inr v \<longleftrightarrow>
     (c \<noteq> 0 \<and> 0 \<le> d \<and> v = (q / c + i * r + sqrt d) / 2)"
  by (auto simp: calc_node_voltage_def bind_err_Inr_iff py_div_Inr_iff math_sqrt_def)

text \<open>The node solve in closed form: when it returns, and what.\<close>

lemma solve_node_Inr_iff:
  "solve_node P q i p = Inr (p', d, v) \<longleftrightarrow>
     (c_f P \<noteq> 0 \<and>
      p' = (if (q / c_f P + i * r_esr P)\<^sup>2 - 4 * p * r_esr P < 0 then 0 else p) \<and>
      d = (q / c_f P + i * r_esr P)\<^sup>2 - 4 * p' * r_esr P \<and>
      v = (q / c_f P + i * r_esr P + sqrt d) / 2)"
  by (auto simp: solve_node_def bind_err_Inr_iff calc_node_discr_Inr_iff
      calc_node_voltage_Inr_iff)

lemma solve_node_Inl_iff:
  "solve_node P q i p = Inl e \<longleftrightarrow> (c_f P = 0 \<and> e = ZeroDivisionError)"
  by (auto simp: solve_node_def bind_err_def calc_node_discr_def calc_node_voltage_def
      py_div_def math_sqrt_def split: sum.splits if_splits)

lemma solve_node_discr_nonneg: "solve_node P q i p = Inr (p', d, v) \<Longrightarrow> 0 \<le> d"
  by (auto simp: solve_node_Inr_iff split: if_splits)

lemma threshold_rule_fields [simp]:
  "isc_a (threshold_rule P s) = isc_a s"
  "i1_a (threshold_rule P s) = i1_a s"
  "qt_c (threshold_rule P s) = qt_c s"
  "t_s (threshold_rule P s) = t_s s"
  "node_discr (threshold_rule P s) = node_discr s"
  "node_v (threshold_rule P s) = node_v s"
  "log_l (threshold_rule P s) = log_l s"
  "p_mode_w (threshold_rule P s) = (if node_v s < v_thresh P then 0 else p_mode_w s)"
  by (simp_all add: threshold_rule_def)

lemma source_clamp_fields [simp]:
  "isc_a (source_clamp P s) = isc_a s"
  "p_mode_w (source_clamp P s) = p_mode_w s"
  "qt_c (source_clamp P s) = qt_c s"
  "t_s (source_clamp P s) = t_s s"
  "node_discr (source_clamp P s) = node_discr s"
  "node_v (source_clamp P s) = node_v s"
  "log_l (source_clamp P s) = log_l s"
  "i1_a (source_clamp P s) = (if voc P \<le> node_v s \<and> i1_a s \<noteq> 0 then 0 else i1_a s)"
  by (simp_all add: source_clamp_def)

lemma log_append_fields [simp]:
  "isc_a (log_append P s) = isc_a s"
  "i1_a (log_append P s) = i1_a s"
  "p_mode_w (log_append P s) = p_mode_w s"
  "qt_c (log_append P s) = qt_c s"
  "node_discr (log_append P s) = node_discr s"
  "node_v (log_append P s) = node_v s"
  "t_s (log_append P s) = t_s s + dt_s P"
  "log_l (log_append P s) = log_l s @ [(t_s s, node_v s)]"
  by (simp_all add: log_append_def)

text \<open>What a successful start-up leaves.\<close>

lemma init_Inr_iff:
  "init P = Inr s \<longleftrightarrow>
     (voc P \<noteq> 0 \<and>
      (\<exists>p d v. solve_node P (q0_c P) (irrad * sa_m2 P * eff P / voc P) (p_on_w P) = Inr (p, d, v) \<and>
         s = threshold_rule P (source_clamp P
               \<lparr>isc_a = irrad * sa_m2 P * eff P / voc P, i1_a = irrad * sa_m2 P * eff P / voc P,
                qt_c = q0_c P, p_mode_w = p, t_s = 0, node_discr = d, node_v = v,
                log_l = [(0, v)]\<rparr>)))"
  unfolding init_def bind_err_Inr_iff calc_solar_current_def py_div_Inr_iff
  by auto

lemma init_Inr_D:
  assumes "init P = Inr s"
  shows "voc P \<noteq> 0" and "c_f P \<noteq> 0"
    and "isc_a s = irrad * sa_m2 P * eff P / voc P"
    and "qt_c s = q0_c P" and "t_s s = 0" and "log_l s = [(0, node_v s)]"
    and "0 \<le> node_discr s"
    and "i1_a s = 0 \<or> i1_a s = isc_a s"
    and "p_mode_w s = 0 \<or> p_mode_w s = p_on_w P"
proof -
  from assms obtain p d v where v: "voc P \<noteq> 0"
    and sn: "solve_node P (q0_c P) (irrad * sa_m2 P * eff P / voc P) (p_on_w P) = Inr (p, d, v)"
    and s: "s = threshold_rule P (source_clamp P
               \<lparr>isc_a = irrad * sa_m2 P * eff P / voc P, i1_a = irrad * sa_m2 P * eff P / voc P,
                qt_c = q0_c P, p_mode_w = p, t_s = 0, node_discr = d, node_v = v,
                log_l = [(0, v)]\<rparr>)"
    unfolding init_Inr_iff by blast
  show "voc P \<noteq> 0" by (rule v)
  from sn show "c_f P \<noteq> 0" by (simp add: solve_node_Inr_iff)
  show "isc_a s = irrad * sa_m2 P * eff P / voc P" by (simp add: s)
  show "qt_c s = q0_c P" by (simp add: s)
  show "t_s s = 0" by (simp add: s)
  show "log_l s = [(0, node_v s)]" by (simp add: s)
  from solve_node_discr_nonneg[OF sn] show "0 \<le> node_discr s" by (simp add: s)
  show "i1_a s = 0 \<or> i1_a s = isc_a s" by (simp add: s)
  from sn have "p = 0 \<or> p = p_on_w P" by (simp add: solve_node_Inr_iff)
  then show "p_mode_w s = 0 \<or> p_mode_w s = p_on_w P" by (auto simp: s)
qed

lemma init_Inl_iff:
  "init P = Inl e \<longleftrightarrow> ((voc P = 0 \<or> c_f P = 0) \<and> e = ZeroDivisionError)"
  unfolding init_def bind_err_Inl_iff calc_solar_current_def py_div_Inl_iff py_div_Inr_iff
    solve_node_Inl_iff
  by (auto split: prod.splits)

text \<open>What the first half of a pass leaves.\<close>

lemma solve_step_Inr_iff:
  "solve_step P s = Inr s1 \<longleftrightarrow>
     (node_v s \<noteq> 0 \<and>
      (\<exists>p d v. solve_node P (max 0 (qt_c s + (i1_a s - p_mode_w s / node_v s) * dt_s P))
                 (if 0 \<le> node_v s \<and> node_v s < voc P then isc_a s else 0)
                 (if p_mode_w s = 0 \<and> voc P \<le> node_v s then p_on_w P else p_mode_w s)
               = Inr (p, d, v) \<and>
         s1 = s\<lparr>qt_c := max 0 (qt_c s + (i1_a s - p_mode_w s / node_v s) * dt_s P),
                i1_a := (if 0 \<le> node_v s \<and> node_v s < voc P then isc_a s else 0),
                p_mode_w := p, node_discr := d, node_v := v\<rparr>))"
proof -
  have m: "(if x < 0 then 0 else x) = max 0 x" for x :: real
    by (simp add: max_def)
  show ?thesis
    unfolding solve_step_def Let_def bind_err_Inr_iff py_div_Inr_iff m
    by auto
qed

lemma solve_step_Inr_D:
  assumes "solve_step P s = Inr s1"
  shows "node_v s \<noteq> 0" and "c_f P \<noteq> 0"
    and "isc_a s1 = isc_a s" and "t_s s1 = t_s s" and "log_l s1 = log_l s"
    and "0 \<le> node_discr s1"
    and "qt_c s1 = max 0 (qt_c s + (i1_a s - p_mode_w s / node_v s) * dt_s P)"
    and "i1_a s1 = (if 0 \<le> node_v s \<and> node_v s < voc P then isc_a s else 0)"
    and "solve_node P (qt_c s1) (i1_a s1)
           (if p_mode_w s = 0 \<and> voc P \<le> node_v s then p_on_w P else p_mode_w s)
         = Inr (p_mode_w s1, node_discr s1, node_v s1)"
proof -
  let ?q = "max 0 (qt_c s + (i1_a s - p_mode_w s / node_v s) * dt_s P)"
  let ?i = "if 0 \<le> node_v s \<and> node_v s < voc P then isc_a s else 0"
  let ?p = "if p_mode_w s = 0 \<and> voc P \<le> node_v s then p_on_w P else p_mode_w s"
  from assms obtain p d v where nz: "node_v s \<noteq> 0"
    and sn: "solve_node P ?q ?i ?p = Inr (p, d, v)"
    and s1: "s1 = s\<lparr>qt_c := ?q, i1_a := ?i, p_mode_w := p, node_discr := d, node_v := v\<rparr>"
    unfolding solve_step_Inr_iff by blast
  show "node_v s \<noteq> 0" by (rule nz)
  from sn show "c_f P \<noteq> 0" by (simp add: solve_node_Inr_iff)
  show "isc_a s1 = isc_a s" by (simp add: s1)
  show "t_s s1 = t_s s" by (simp add: s1)
  show "log_l s1 = log_l s" by (simp add: s1)
  from solve_node_discr_nonneg[OF sn] show "0 \<le> node_discr s1" by (simp add: s1)
  show "qt_c s1 = ?q" by (simp add: s1)
  show "i1_a s1 = ?i" by (simp add: s1)
  have "qt_c s1 = ?q" "i1_a s1 = ?i" "p_mode_w s1 = p" "node_discr s1 = d" "node_v s1 = v"
    by (simp_all add: s1)
  with sn show "solve_node P (qt_c s1) (i1_a s1) ?p = Inr (p_mode_w s1, node_discr s1, node_v s1)"
    by simp
qed

lemma solve_step_Inl_iff:
  "solve_step P s = Inl e \<longleftrightarrow> ((node_v s = 0 \<or> c_f P = 0) \<and> e = ZeroDivisionError)"
  unfolding solve_step_def Let_def bind_err_Inl_iff py_div_Inl_iff py_div_Inr_iff
    solve_node_Inl_iff
  by (auto split: prod.splits)

lemma loop_body_Inr_iff:
  "loop_body P s = Inr s' \<longleftrightarrow>
     (\<exists>s1. solve_step P s = Inr s1 \<and>
           s' = log_append P (threshold_rule P (source_clamp P s1)))"
  by (auto simp: loop_body_def bind_err_Inr_iff)

lemma loop_body_Inl_iff:
  "loop_body P s = Inl e \<longleftrightarrow> ((node_v s = 0 \<or> c_f P = 0) \<and> e = ZeroDivisionError)"
  by (auto simp: loop_body_def bind_err_Inl_iff solve_step_Inl_iff)

lemma loop_body_Inr_D:
  assumes "loop_body P s = Inr s'"
  shows "node_v s \<noteq> 0" and "c_f P \<noteq> 0"
    and "isc_a s' = isc_a s"
    and "t_s s' = t_s s + dt_s P"
    and "log_l s' = log_l s @ [(t_s s, node_v s')]"
    and "0 \<le> node_discr s'"
    and "qt_c s' = max 0 (qt_c s + (i1_a s - p_mode_w s / node_v s) * dt_s P)"
proof -
  from assms obtain s1 where st: "solve_step P s = Inr s1"
    and s': "s' = log_append P (threshold_rule P (source_clamp P s1))"
    unfolding loop_body_Inr_iff by blast
  note d = solve_step_Inr_D[OF st]
  show "node_v s \<noteq> 0" by (rule d(1))
  show "c_f P \<noteq> 0" by (rule d(2))
  show "isc_a s' = isc_a s" by (simp add: s' d(3))
  show "t_s s' = t_s s + dt_s P" by (simp add: s' d(4))
  show "log_l s' = log_l s @ [(t_s s, node_v s')]" by (simp add: s' d(4,5))
  show "0 \<le> node_discr s'" by (simp add: s' d(6))
  show "qt_c s' = max 0 (qt_c s + (i1_a s - p_mode_w s / node_v s) * dt_s P)"
    by (simp add: s' d(7))
qed

section \<open>The time column and the number of passes\<close>







lemma below_dur_iff:
  assumes "0 < dt"
  shows "real m * dt < dur \<longleftrightarrow> int m < \<lceil>dur / dt\<rceil>"
proof -
  have "real m * dt < dur \<longleftrightarrow> real m < dur / dt"
    using assms by (simp add: pos_less_divide_eq)
  also have "\<dots> \<longleftrightarrow> int m < \<lceil>dur / dt\<rceil>"
    by (simp add: less_ceiling_iff)
  finally show ?thesis .
qed


lemma run_loop_stop: "\<not> loop_cond P s \<Longrightarrow> run_loop k P s = Some (Inr s)"
  by (cases k) simp_all



text \<open>More allowed passes do not change a result.\<close>

lemma run_loop_mono: "run_loop k P s = Some r \<Longrightarrow> run_loop (k + j) P s = Some r"
proof (induction k arbitrary: s)
  case 0
  then show ?case by (cases "loop_cond P s") (simp_all add: run_loop_stop)
next
  case (Suc k)
  then show ?case by (auto split: sum.splits if_splits)
qed

lemma run_loop_unique:
  assumes "run_loop k P s = Some r" "run_loop j P s = Some r'"
  shows "r = r'"
proof (cases "k \<le> j")
  case True
  then obtain d where "j = k + d" by (auto simp: le_iff_add)
  with run_loop_mono[OF assms(1), of d] assms(2) show ?thesis by simp
next
  case False
  then obtain d where "k = j + d" by (metis le_iff_add nat_le_linear)
  with run_loop_mono[OF assms(2), of d] assms(1) show ?thesis by simp
qed


section \<open>Runs, errors and reachable states\<close>

lemmas run_defs = simulate_def init_def loop_body_def solve_step_def log_append_def
  loop_cond_def solve_node_def calc_solar_current_def calc_node_discr_def
  calc_node_voltage_def py_div_def math_sqrt_def bind_err_def source_clamp_def
  threshold_rule_def irrad_def Let_def

lemma run_loop_error: "run_loop k P s = Some (Inl e) \<Longrightarrow> e = ZeroDivisionError"
proof (induction k arbitrary: s)
  case 0
  then show ?case by (auto split: if_splits)
next
  case (Suc k)
  then show ?case by (auto simp: loop_body_Inl_iff split: if_splits sum.splits)
qed


lemma simulate_Inl_iff:
  "simulate n P = Some (Inl e) \<longleftrightarrow>
     (init P = Inl e \<or> (\<exists>s0. init P = Inr s0 \<and> run_loop n P s0 = Some (Inl e)))"
  by (auto simp: simulate_def split: sum.splits option.splits)

lemma simulate_None_iff:
  "simulate n P = None \<longleftrightarrow> (\<exists>s0. init P = Inr s0 \<and> run_loop n P s0 = None)"
  by (auto simp: simulate_def split: sum.splits option.splits)

lemma simulate_error: "simulate n P = Some (Inl e) \<Longrightarrow> e = ZeroDivisionError"
  by (auto simp: simulate_Inl_iff init_Inl_iff dest: run_loop_error)

lemma reach_discr_nonneg: "reach P s \<Longrightarrow> 0 \<le> node_discr s"
  by (induction rule: reach.induct) (auto dest: init_Inr_D(7) loop_body_Inr_D(6))

lemma init_steady: "init (P_steady dt dur) = Inr s_steady"
  by (simp add: run_defs P_steady_def s_steady_def)

lemma init_fallback: "init P_fallback = Inr s_fallback"
  by (simp add: run_defs P_fallback_def s_fallback_def)

lemma init_zero: "init P_zero = Inr s_zero"
  by (simp add: run_defs P_zero_def s_zero_def)

section \<open>The claims\<close>

text \<open>
  C1. Whenever \<open>calc_node_voltage\<close> is called, at start-up and in every pass, the
  discriminant handed to it is non-negative: a negative first discriminant makes the
  node solve set the load power to 0 and recompute, and the recomputed value is a
  square. So the square root never raises: the node solve, start-up, a pass and the
  whole run never end in ValueError, and every state at the loop head carries a
  non-negative discriminant.
\<close>

theorem discriminant_nonneg:
  "(solve_node P q i p = Inr (p', d, v) \<longrightarrow>
      0 \<le> d \<and> calc_node_voltage d q (c_f P) i (r_esr P) = Inr v \<and>
      (\<forall>d0. calc_node_discr q (c_f P) i (r_esr P) p = Inr d0 \<and> d0 < 0 \<longrightarrow>
         p' = 0 \<and> calc_node_discr q (c_f P) i (r_esr P) 0 = Inr d)) \<and>
   solve_node P q i p \<noteq> Inl ValueError \<and>
   init P \<noteq> Inl ValueError \<and>
   loop_body P s \<noteq> Inl ValueError \<and>
   (reach P s \<longrightarrow> 0 \<le> node_discr s) \<and>
   simulate n P \<noteq> Some (Inl ValueError)"
proof (intro conjI impI)
  assume sn: "solve_node P q i p = Inr (p', d, v)"
  then show "0 \<le> d" by (rule solve_node_discr_nonneg)
  from sn show "calc_node_voltage d q (c_f P) i (r_esr P) = Inr v"
    by (auto simp: solve_node_Inr_iff calc_node_voltage_Inr_iff split: if_splits)
  from sn show "\<forall>d0. calc_node_discr q (c_f P) i (r_esr P) p = Inr d0 \<and> d0 < 0 \<longrightarrow>
         p' = 0 \<and> calc_node_discr q (c_f P) i (r_esr P) 0 = Inr d"
    by (auto simp: solve_node_Inr_iff calc_node_discr_Inr_iff)
next
  show "solve_node P q i p \<noteq> Inl ValueError" by (simp add: solve_node_Inl_iff)
  show "init P \<noteq> Inl ValueError" by (simp add: init_Inl_iff)
  show "loop_body P s \<noteq> Inl ValueError" by (simp add: loop_body_Inl_iff)
  show "simulate n P \<noteq> Some (Inl ValueError)" using simulate_error[of n P ValueError] by auto
next
  assume "reach P s"
  then show "0 \<le> node_discr s" by (rule reach_discr_nonneg)
qed

theorem discriminant_nonneg_witness:
  "solve_node P_fallback 1 0 1 = Inr (0, 1, 1) \<and>
   calc_node_discr 1 (c_f P_fallback) 0 (r_esr P_fallback) 1 = Inr (- 3) \<and>
   calc_node_discr 1 (c_f P_fallback) 0 (r_esr P_fallback) 0 = Inr 1 \<and>
   calc_node_voltage 1 1 (c_f P_fallback) 0 (r_esr P_fallback) = Inr 1 \<and>
   reach P_fallback s_fallback \<and> 0 \<le> node_discr s_fallback"
proof -
  have sn: "solve_node P_fallback 1 0 1 = Inr (0, 1, 1)"
    by (simp add: run_defs P_fallback_def)
  have d0: "calc_node_discr 1 (c_f P_fallback) 0 (r_esr P_fallback) 1 = Inr (- 3)"
    by (simp add: run_defs P_fallback_def)
  have r: "reach P_fallback s_fallback"
    by (rule reach_init) (rule init_fallback)
  from discriminant_nonneg[of P_fallback 1 0 1 0 1 1 s_fallback 0] sn d0 r
  show ?thesis by simp
qed




text \<open>
  C7. The division \<open>p_mode_w / node_v\<close> at the head of the loop body is unguarded: from
  any state whose voltage is exactly 0 the pass ends in ZeroDivisionError. Such a state is
  reached: with an empty capacitor and no sun, start-up leaves voltage 0 with the loop
  condition true, and the run ends in the error, so no log is produced.
\<close>

theorem zero_voltage_division:
  "(node_v s = 0 \<longrightarrow> loop_body P s = Inl ZeroDivisionError) \<and>
   init P_zero = Inr s_zero \<and> reach P_zero s_zero \<and> node_v s_zero = 0 \<and>
   log_l s_zero = [(0, 0)] \<and> loop_cond P_zero s_zero \<and>
   simulate (Suc n) P_zero = Some (Inl ZeroDivisionError)"
proof -
  have v: "node_v s_zero = 0" and l: "log_l s_zero = [(0, 0)]"
    by (simp_all add: s_zero_def)
  have c: "loop_cond P_zero s_zero"
    by (simp add: loop_cond_def s_zero_def P_zero_def)
  have b: "loop_body P_zero s_zero = Inl ZeroDivisionError"
    by (simp add: loop_body_Inl_iff v)
  have "run_loop (Suc n) P_zero s_zero = Some (Inl ZeroDivisionError)"
    using b c by simp
  then have "simulate (Suc n) P_zero = Some (Inl ZeroDivisionError)"
    using init_zero by (simp add: simulate_Inl_iff)
  moreover have "reach P_zero s_zero" by (rule reach_init) (rule init_zero)
  ultimately show ?thesis using v l c init_zero by (simp add: loop_body_Inl_iff)
qed

theorem zero_voltage_division_witness:
  "node_v s_zero = 0 \<and> loop_body P_zero s_zero = Inl ZeroDivisionError \<and>
   simulate 1 P_zero = Some (Inl ZeroDivisionError)"
  using zero_voltage_division[of s_zero P_zero 0] by simp

text \<open>
  C9. With \<open>voc = 0\<close> the division in \<open>calc_solar_current\<close> raises ZeroDivisionError at
  start-up, so the run ends in that error before any row exists; with \<open>voc \<noteq> 0\<close> that
  division returns its quotient.
\<close>

theorem voc_zero_division:
  "(voc P = 0 \<longrightarrow>
      calc_solar_current irrad (sa_m2 P) (eff P) (voc P) = Inl ZeroDivisionError \<and>
      init P = Inl ZeroDivisionError \<and> simulate n P = Some (Inl ZeroDivisionError)) \<and>
   (voc P \<noteq> 0 \<longrightarrow>
      calc_solar_current irrad (sa_m2 P) (eff P) (voc P) = Inr (irrad * sa_m2 P * eff P / voc P))"
  by (simp add: calc_solar_current_def py_div_def init_def bind_err_def simulate_def)

theorem voc_zero_division_witness:
  "voc P_voc0 = 0 \<and> simulate 3 P_voc0 = Some (Inl ZeroDivisionError) \<and>
   voc P_fallback \<noteq> 0 \<and>
   calc_solar_current irrad (sa_m2 P_fallback) (eff P_fallback) (voc P_fallback) = Inr 0"
proof -
  have a: "voc P_voc0 = 0" by (simp add: P_voc0_def)
  have b: "voc P_fallback \<noteq> 0" "sa_m2 P_fallback = 0" by (simp_all add: P_fallback_def)
  from voc_zero_division[of P_voc0 3] voc_zero_division[of P_fallback 0] a b
  show ?thesis by simp
qed

text \<open>
  C10. With \<open>dur_s \<le> 0\<close> the loop condition is false at once, the body never runs, and
  the finished log is the single row \<open>(0, initial voltage)\<close>: for \<open>dur_s = 0\<close> that is one
  row fewer than \<open>floor (dur_s / dt_s) + 2\<close>.
\<close>

theorem no_pass_without_duration:
  assumes "dur_s P \<le> 0" and "init P = Inr s0"
  shows "\<not> loop_cond P s0 \<and> simulate n P = Some (Inr [(0, node_v s0)]) \<and>
    (dur_s P = 0 \<longrightarrow> length [(0 :: real, node_v s0)] + 1 = nat \<lfloor>dur_s P / dt_s P\<rfloor> + 2)"
proof -
  from init_Inr_D(6)[OF assms(2)] assms(1) have c: "\<not> loop_cond P s0"
    by (simp add: loop_cond_def)
  then have "run_loop n P s0 = Some (Inr s0)" by (rule run_loop_stop)
  with assms(2) init_Inr_D(6)[OF assms(2)] have "simulate n P = Some (Inr [(0, node_v s0)])"
    by (simp add: simulate_def)
  with c show ?thesis by simp
qed

theorem no_pass_without_duration_witness:
  "dur_s (P_steady 1 0) \<le> 0 \<and> init (P_steady 1 0) = Inr s_steady \<and>
   \<not> loop_cond (P_steady 1 0) s_steady \<and>
   simulate 0 (P_steady 1 0) = Some (Inr [(0, 1)]) \<and>
   nat \<lfloor>dur_s (P_steady 1 0) / dt_s (P_steady 1 0)\<rfloor> + 2 = 2"
proof -
  have a: "dur_s (P_steady 1 0) \<le> 0" by (simp add: P_steady_def)
  from no_pass_without_duration[OF a init_steady, of 0] a init_steady
  show ?thesis by (simp add: s_steady_def P_steady_def)
qed

section \<open>Square roots of the concrete runs\<close>

lemma sqrt_quarter: "sqrt (1 / 4) = 1 / 2"
  by (rule real_sqrt_unique) (simp_all add: power2_eq_square)


lemma sqrt_sun: "sqrt (714118729 / 4) = 26723 / 2"
  by (rule real_sqrt_unique) (simp_all add: power2_eq_square)

lemma init_negq: "init P_negq = Inr s_negq"
  by (simp add: run_defs P_negq_def s_negq_def)

lemma init_drain: "init P_drain = Inr s_drain0"
  by (simp add: run_defs P_drain_def s_drain0_def)

lemma body_drain: "loop_body P_drain s_drain0 = Inr s_drain1"
  by (simp add: run_defs P_drain_def s_drain0_def s_drain1_def)

lemma init_sun: "init P_sun = Inr s_sun0"
  by (simp add: run_defs P_sun_def s_sun0_def sqrt_quarter power2_eq_square)

lemma step_sun: "solve_step P_sun s_sun0 = Inr s_sun1"
  by (simp add: run_defs P_sun_def s_sun0_def s_sun1_def sqrt_sun power2_eq_square)

section \<open>Charge and source current\<close>

lemma loop_body_charge_nonneg: "loop_body P s = Inr s' \<Longrightarrow> 0 \<le> qt_c s'"
  by (simp add: loop_body_Inr_D(7))

lemma reach_charge_nonneg: "reach P s \<Longrightarrow> 0 \<le> q0_c P \<Longrightarrow> 0 \<le> qt_c s"
  by (induction rule: reach.induct) (simp_all add: init_Inr_D(4) loop_body_charge_nonneg)

text \<open>
  C4 (as amended). After the charge update of every pass the charge from which the voltage
  is derived is non-negative (the floor at 0); the start-up voltage is derived from
  \<open>q0_c\<close> as given, with no floor. So every state of the run other than the start-up
  state has a non-negative charge, and all of them have when \<open>q0_c \<ge> 0\<close>.
\<close>

theorem charge_floor:
  "(solve_step P s = Inr s1 \<longrightarrow>
      0 \<le> qt_c s1 \<and>
      (\<exists>p. solve_node P (qt_c s1) (i1_a s1) p = Inr (p_mode_w s1, node_discr s1, node_v s1))) \<and>
   (loop_body P s = Inr s' \<longrightarrow> 0 \<le> qt_c s') \<and>
   (init P = Inr s0 \<longrightarrow> qt_c s0 = q0_c P) \<and>
   (reach P s \<and> 0 \<le> q0_c P \<longrightarrow> 0 \<le> qt_c s) \<and>
   (reach P s \<and> init P \<noteq> Inr s \<longrightarrow> 0 \<le> qt_c s)"
proof (intro conjI impI)
  assume st: "solve_step P s = Inr s1"
  from solve_step_Inr_D(7)[OF st] show "0 \<le> qt_c s1" by simp
  from solve_step_Inr_D(9)[OF st]
  show "\<exists>p. solve_node P (qt_c s1) (i1_a s1) p = Inr (p_mode_w s1, node_discr s1, node_v s1)"
    by blast
next
  assume "loop_body P s = Inr s'"
  then show "0 \<le> qt_c s'" by (rule loop_body_charge_nonneg)
next
  assume "init P = Inr s0"
  then show "qt_c s0 = q0_c P" by (rule init_Inr_D(4))
next
  assume "reach P s \<and> 0 \<le> q0_c P"
  then show "0 \<le> qt_c s" by (auto intro: reach_charge_nonneg)
next
  assume "reach P s \<and> init P \<noteq> Inr s"
  then show "0 \<le> qt_c s"
    by (auto elim: reach.cases simp: loop_body_charge_nonneg)
qed

theorem charge_floor_witness:
  "loop_body P_drain s_drain0 = Inr s_drain1 \<and> qt_c s_drain1 = 0 \<and>
   qt_c s_drain0 + (i1_a s_drain0 - p_mode_w s_drain0 / node_v s_drain0) * dt_s P_drain = - 1 \<and>
   init P_drain = Inr s_drain0 \<and> qt_c s_drain0 = q0_c P_drain \<and>
   reach P_drain s_drain1 \<and> 0 \<le> q0_c P_drain \<and> init P_drain \<noteq> Inr s_drain1 \<and>
   0 \<le> qt_c s_drain1"
proof -
  have r: "reach P_drain s_drain1"
    by (rule reach_step[OF reach_init[OF init_drain] _ body_drain])
      (simp add: loop_cond_def s_drain0_def P_drain_def)
  have n: "init P_drain \<noteq> Inr s_drain1"
    by (simp add: init_drain s_drain0_def s_drain1_def)
  have q: "0 \<le> q0_c P_drain" by (simp add: P_drain_def)
  have e: "qt_c s_drain0 + (i1_a s_drain0 - p_mode_w s_drain0 / node_v s_drain0) * dt_s P_drain
      = - 1"
    by (simp add: s_drain0_def P_drain_def)
  from charge_floor[of P_drain s_drain0 s_drain1 s_drain1 s_drain0]
    charge_floor[of P_drain s_drain1 s_drain1 s_drain1 s_drain0] r n q e body_drain init_drain
  show ?thesis by (simp add: s_drain1_def)
qed

theorem charge_floor_counterexample:
  "init P_negq = Inr s_negq \<and> reach P_negq s_negq \<and> qt_c s_negq = - 1 \<and> qt_c s_negq < 0 \<and>
   calc_node_voltage (node_discr s_negq) (qt_c s_negq) (c_f P_negq) (i1_a s_negq) (r_esr P_negq)
     = Inr (node_v s_negq) \<and>
   simulate 0 P_negq = Some (Inr [(0, 0)])"
proof -
  have "reach P_negq s_negq" by (rule reach_init) (rule init_negq)
  moreover have "run_loop 0 P_negq s_negq = Some (Inr s_negq)"
    by (simp add: loop_cond_def s_negq_def P_negq_def)
  then have "simulate 0 P_negq = Some (Inr [(0, 0)])"
    by (simp add: simulate_def init_negq) (simp add: s_negq_def)
  moreover have "calc_node_voltage (node_discr s_negq) (qt_c s_negq) (c_f P_negq)
      (i1_a s_negq) (r_esr P_negq) = Inr (node_v s_negq)"
    by (simp add: run_defs s_negq_def P_negq_def)
  ultimately show ?thesis by (simp add: init_negq) (simp add: s_negq_def)
qed

text \<open>
  C5. In every pass the solar current is set to \<open>isc_a\<close> when the voltage \<open>v\<close> of the
  previous pass satisfies \<open>0 \<le> v < voc\<close> and to 0 otherwise, and the node solve uses that
  value. When the source clamp that follows turns a nonzero solar current into 0, the
  voltage just computed is at least \<open>voc\<close>. The pass ends with that voltage and the clamped
  current.
\<close>

theorem source_current_rule:
  assumes "solve_step P s = Inr s1"
  shows "i1_a s1 = (if 0 \<le> node_v s \<and> node_v s < voc P then isc_a s else 0) \<and>
    (\<exists>p. solve_node P (qt_c s1) (i1_a s1) p = Inr (p_mode_w s1, node_discr s1, node_v s1)) \<and>
    (i1_a s1 \<noteq> 0 \<and> i1_a (source_clamp P s1) = 0 \<longrightarrow> voc P \<le> node_v s1) \<and>
    (\<exists>s'. loop_body P s = Inr s' \<and> node_v s' = node_v s1 \<and>
          i1_a s' = i1_a (source_clamp P s1) \<and>
          (i1_a s1 \<noteq> 0 \<and> i1_a s' = 0 \<longrightarrow> voc P \<le> node_v s'))"
proof (intro conjI)
  show "i1_a s1 = (if 0 \<le> node_v s \<and> node_v s < voc P then isc_a s else 0)"
    by (rule solve_step_Inr_D(8)[OF assms])
  from solve_step_Inr_D(9)[OF assms]
  show "\<exists>p. solve_node P (qt_c s1) (i1_a s1) p = Inr (p_mode_w s1, node_discr s1, node_v s1)"
    by blast
  show c: "i1_a s1 \<noteq> 0 \<and> i1_a (source_clamp P s1) = 0 \<longrightarrow> voc P \<le> node_v s1"
    by (auto split: if_splits)
  have "loop_body P s = Inr (log_append P (threshold_rule P (source_clamp P s1)))"
    by (simp add: loop_body_Inr_iff assms)
  with c show "\<exists>s'. loop_body P s = Inr s' \<and> node_v s' = node_v s1 \<and>
          i1_a s' = i1_a (source_clamp P s1) \<and>
          (i1_a s1 \<noteq> 0 \<and> i1_a s' = 0 \<longrightarrow> voc P \<le> node_v s')"
    by (intro exI[of _ "log_append P (threshold_rule P (source_clamp P s1))"]) simp
qed

theorem source_current_rule_witness:
  "solve_step P_sun s_sun0 = Inr s_sun1 \<and> reach P_sun s_sun0 \<and>
   0 \<le> node_v s_sun0 \<and> node_v s_sun0 < voc P_sun \<and> i1_a s_sun1 = isc_a s_sun0 \<and>
   i1_a s_sun1 \<noteq> 0 \<and> i1_a (source_clamp P_sun s_sun1) = 0 \<and> voc P_sun \<le> node_v s_sun1"
proof -
  have r: "reach P_sun s_sun0" by (rule reach_init) (rule init_sun)
  have a: "0 \<le> node_v s_sun0" "node_v s_sun0 < voc P_sun"
    by (simp_all add: s_sun0_def P_sun_def)
  have b: "i1_a s_sun1 \<noteq> 0" "i1_a (source_clamp P_sun s_sun1) = 0"
    by (simp_all add: s_sun1_def P_sun_def)
  from source_current_rule[OF step_sun] r a b step_sun show ?thesis by simp
qed

section \<open>Runs without sun\<close>


lemma half_sum_pos: "0 < a \<Longrightarrow> 0 \<le> b \<Longrightarrow> v = (a + b) / 2 \<Longrightarrow> 0 < (v :: real)"
  by simp







lemma dark_solved_volt_pos:
  assumes "dark_solved P s p" "0 < c_f P" "0 < qt_c s"
  shows "0 < node_v s"
proof -
  have "0 < qt_c s / c_f P" using assms(2,3) by simp
  moreover have "0 \<le> sqrt (node_discr s)" using assms(1) by (simp add: dark_solved_def)
  moreover have "node_v s = (qt_c s / c_f P + sqrt (node_discr s)) / 2"
    using assms(1) by (simp add: dark_solved_def)
  ultimately show ?thesis by (rule half_sum_pos)
qed













section \<open>The loop with the rounded time sum\<close>

lemma log_append_fl_fields [simp]:
  "isc_a (log_append_fl rnd P s) = isc_a s"
  "i1_a (log_append_fl rnd P s) = i1_a s"
  "p_mode_w (log_append_fl rnd P s) = p_mode_w s"
  "qt_c (log_append_fl rnd P s) = qt_c s"
  "node_discr (log_append_fl rnd P s) = node_discr s"
  "node_v (log_append_fl rnd P s) = node_v s"
  "t_s (log_append_fl rnd P s) = rnd (t_s s + dt_s P)"
  "log_l (log_append_fl rnd P s) = log_l s @ [(t_s s, node_v s)]"
  by (simp_all add: log_append_fl_def)

text \<open>With no rounding it is the loop of the exact sums.\<close>

lemma log_append_fl_id: "log_append_fl (\<lambda>x. x) P s = log_append P s"
  by (simp add: log_append_fl_def log_append_def)

lemma loop_body_fl_id: "loop_body_fl (\<lambda>x. x) P s = loop_body P s"
  by (simp add: loop_body_fl_def loop_body_def log_append_fl_id)

lemma run_loop_fl_id: "run_loop_fl (\<lambda>x. x) n P s = run_loop n P s"
  by (induction n arbitrary: s) (simp_all add: loop_body_fl_id split: sum.splits)

lemma simulate_fl_id: "simulate_fl (\<lambda>x. x) n P = simulate n P"
  by (cases "init P") (simp_all add: simulate_fl_def simulate_def run_loop_fl_id)

lemma loop_body_fl_Inr_D:
  assumes "loop_body_fl rnd P s = Inr s'"
  shows "t_s s' = rnd (t_s s + dt_s P)" and "log_l s' = log_l s @ [(t_s s, node_v s')]"
proof -
  from assms obtain s1 where st: "solve_step P s = Inr s1"
    and s': "s' = log_append_fl rnd P (threshold_rule P (source_clamp P s1))"
    by (auto simp: loop_body_fl_def bind_err_Inr_iff)
  note d = solve_step_Inr_D[OF st]
  show "t_s s' = rnd (t_s s + dt_s P)" by (simp add: s' d(4))
  show "log_l s' = log_l s @ [(t_s s, node_v s')]" by (simp add: s' d(4,5))
qed

lemma simulate_fl_Inr_iff:
  "simulate_fl rnd n P = Some (Inr tr) \<longleftrightarrow>
     (\<exists>s0 s'. init P = Inr s0 \<and> run_loop_fl rnd n P s0 = Some (Inr s') \<and> tr = log_l s')"
  by (auto simp: simulate_fl_def split: sum.splits option.splits)

lemma simulate_fl_None_iff:
  "simulate_fl rnd n P = None \<longleftrightarrow> (\<exists>s0. init P = Inr s0 \<and> run_loop_fl rnd n P s0 = None)"
  by (auto simp: simulate_fl_def split: sum.splits option.splits)

lemma at_pass_init: "init P = Inr s \<Longrightarrow> at_pass rnd P 0 s"
  by (simp add: at_pass_def init_Inr_D(5,6))

lemma at_pass_cond:
  assumes "at_pass rnd P k s"
  shows "loop_cond P s \<longleftrightarrow>
    (if k = 0 then 0 < dur_s P else time_sum rnd (dt_s P) (k - 1) < dur_s P)"
proof -
  from assms have m: "map fst (log_l s) = 0 # map (time_sum rnd (dt_s P)) [0..<k]"
    by (simp add: at_pass_def)
  then have "log_l s \<noteq> []" by auto
  then have "fst (last (log_l s)) = last (map fst (log_l s))" by (simp add: last_map)
  also have "\<dots> = (if k = 0 then 0 else time_sum rnd (dt_s P) (k - 1))"
    unfolding m by (cases k) simp_all
  finally show ?thesis by (simp add: loop_cond_def)
qed

lemma at_pass_step:
  assumes "at_pass rnd P k s" "loop_cond P s" "loop_body_fl rnd P s = Inr s'"
  shows "at_pass rnd P (Suc k) s'"
proof -
  note d = loop_body_fl_Inr_D[OF assms(3)]
  from assms(1) have t: "t_s s = time_sum rnd (dt_s P) k"
    and m: "map fst (log_l s) = 0 # map (time_sum rnd (dt_s P)) [0..<k]"
    and b: "\<forall>j. Suc j < k \<longrightarrow> time_sum rnd (dt_s P) j < dur_s P"
    by (simp_all add: at_pass_def)
  have "\<forall>j. Suc j < Suc k \<longrightarrow> time_sum rnd (dt_s P) j < dur_s P"
  proof (intro allI impI)
    fix j assume "Suc j < Suc k"
    then have "Suc j < k \<or> (0 < k \<and> j = k - 1)" by auto
    then show "time_sum rnd (dt_s P) j < dur_s P"
      using b at_pass_cond[OF assms(1)] assms(2) by (auto split: if_splits)
  qed
  then show ?thesis
    by (simp add: at_pass_def d t m)
qed

lemma run_loop_fl_rows:
  "run_loop_fl rnd n P s = Some (Inr s') \<Longrightarrow> at_pass rnd P k s \<Longrightarrow> 0 < dur_s P \<Longrightarrow>
   \<exists>K. length (log_l s') = K + 2 \<and> dur_s P \<le> time_sum rnd (dt_s P) K \<and>
       (\<forall>j<K. time_sum rnd (dt_s P) j < dur_s P)"
proof (induction n arbitrary: s k)
  case 0
  then have nc: "\<not> loop_cond P s" and s': "s' = s" by (auto split: if_splits)
  from nc at_pass_cond[OF 0(2)] 0(3) obtain K where k: "k = Suc K"
    and ge: "dur_s P \<le> time_sum rnd (dt_s P) K"
    by (cases k) (auto split: if_splits)
  from 0(2) have "length (map fst (log_l s)) = Suc k" by (simp add: at_pass_def)
  then have "length (log_l s') = K + 2" by (simp add: s' k)
  moreover from 0(2) k have "\<forall>j<K. time_sum rnd (dt_s P) j < dur_s P"
    by (simp add: at_pass_def)
  ultimately show ?case using ge by blast
next
  case (Suc n)
  show ?case
  proof (cases "loop_cond P s")
    case False
    with Suc.prems(1) have s': "s' = s" by simp
    from False at_pass_cond[OF Suc.prems(2)] Suc.prems(3) obtain K where k: "k = Suc K"
      and ge: "dur_s P \<le> time_sum rnd (dt_s P) K"
      by (cases k) (auto split: if_splits)
    from Suc.prems(2) have "length (map fst (log_l s)) = Suc k" by (simp add: at_pass_def)
    then have "length (log_l s') = K + 2" by (simp add: s' k)
    moreover from Suc.prems(2) k have "\<forall>j<K. time_sum rnd (dt_s P) j < dur_s P"
      by (simp add: at_pass_def)
    ultimately show ?thesis using ge by blast
  next
    case True
    with Suc.prems(1) obtain s1 where b: "loop_body_fl rnd P s = Inr s1"
      and r: "run_loop_fl rnd n P s1 = Some (Inr s')"
      by (auto split: sum.splits)
    from Suc.IH[OF r at_pass_step[OF Suc.prems(2) True b] Suc.prems(3)] show ?thesis .
  qed
qed

lemma run_loop_fl_enough:
  "at_pass rnd P k s \<Longrightarrow> dur_s P \<le> time_sum rnd (dt_s P) K \<Longrightarrow> K + 1 \<le> k + n \<Longrightarrow>
   run_loop_fl rnd n P s \<noteq> None"
proof (induction n arbitrary: s k)
  case 0
  have "\<not> loop_cond P s"
  proof
    assume c: "loop_cond P s"
    from 0(3) have "Suc K \<le> k" by simp
    then obtain k' where k: "k = Suc k'" and "K \<le> k'" by (cases k) auto
    then have "K = k' \<or> Suc K < k" by auto
    then show False
    proof
      assume "K = k'"
      with c at_pass_cond[OF 0(1)] k 0(2) show False by simp
    next
      assume "Suc K < k"
      with 0(1) have "time_sum rnd (dt_s P) K < dur_s P" by (simp add: at_pass_def)
      with 0(2) show False by simp
    qed
  qed
  then show ?case by simp
next
  case (Suc n)
  show ?case
  proof (cases "loop_cond P s")
    case False
    then show ?thesis by simp
  next
    case True
    show ?thesis
    proof (cases "loop_body_fl rnd P s")
      case (Inl e)
      with True show ?thesis by simp
    next
      case (Inr s1)
      from Suc.IH[OF at_pass_step[OF Suc.prems(1) True Inr] Suc.prems(2)] Suc.prems(3) Inr True
      show ?thesis by simp
    qed
  qed
qed

lemma run_loop_fl_hd:
  "run_loop_fl rnd n P s = Some (Inr s') \<Longrightarrow> log_l s \<noteq> [] \<Longrightarrow> hd (log_l s') = hd (log_l s)"
proof (induction n arbitrary: s)
  case 0
  then show ?case by (auto split: if_splits)
next
  case (Suc n)
  show ?case
  proof (cases "loop_cond P s")
    case False
    with Suc.prems show ?thesis by simp
  next
    case True
    with Suc.prems(1) obtain s1 where b: "loop_body_fl rnd P s = Inr s1"
      and r: "run_loop_fl rnd n P s1 = Some (Inr s')"
      by (auto split: sum.splits)
    from loop_body_fl_Inr_D(2)[OF b] Suc.prems(2) Suc.IH[OF r] show ?thesis by simp
  qed
qed

text \<open>When the sums are exact they are the multiples of \<open>dt\<close>.\<close>

lemma time_sum_exact:
  assumes "\<forall>j<N. rnd (real j * dt + dt) = real (Suc j) * dt"
  shows "k \<le> N \<Longrightarrow> time_sum rnd dt k = real k * dt"
proof (induction k)
  case 0
  show ?case by simp
next
  case (Suc k)
  then have "time_sum rnd dt k = real k * dt" and "k < N" by simp_all
  with assms show ?case by simp
qed

lemma exact_first_reach:
  assumes ex: "\<forall>j<nat \<lceil>dur / dt\<rceil>. rnd (real j * dt + dt) = real (Suc j) * dt"
    and dt: "0 < dt"
  shows "dur \<le> time_sum rnd dt (nat \<lceil>dur / dt\<rceil>)"
    and "j < nat \<lceil>dur / dt\<rceil> \<Longrightarrow> time_sum rnd dt j < dur"
proof -
  let ?N = "nat \<lceil>dur / dt\<rceil>"
  have "\<not> int ?N < \<lceil>dur / dt\<rceil>" by simp
  then have "\<not> real ?N * dt < dur" using below_dur_iff[OF dt, of ?N dur] by blast
  then show "dur \<le> time_sum rnd dt ?N" by (simp add: time_sum_exact[OF ex])
  assume j: "j < ?N"
  then have "int j < \<lceil>dur / dt\<rceil>" by simp
  then have "real j * dt < dur" using below_dur_iff[OF dt, of j dur] by blast
  with j show "time_sum rnd dt j < dur" by (simp add: time_sum_exact[OF ex])
qed

text \<open>
  C2 (as amended). Let \<open>rnd\<close> be the rounding of the additions \<open>t_s += dt_s\<close>. For positive
  \<open>dur_s\<close>, a finished log has \<open>(0, initial voltage)\<close> as its first row and exactly
  \<open>K + 2\<close> rows, where \<open>K\<close> is the number of rounded additions of \<open>dt_s\<close> after which the
  time sum first reaches \<open>dur_s\<close>; and if the sum reaches \<open>dur_s\<close> after \<open>k\<close> additions,
  the loop ends within \<open>k + 1\<close> passes. When \<open>dt_s\<close> is positive and the sums up to
  \<open>ceiling (dur_s / dt_s)\<close> are exact, that is \<open>ceiling (dur_s / dt_s) + 2\<close> rows (the
  claim's \<open>floor\<close> only when \<open>dt_s\<close> divides \<open>dur_s\<close>): 12 rows for \<open>dur_s = 10\<close> and
  \<open>dt_s = 1\<close>.
\<close>

theorem trace_length:
  assumes "0 < dur_s P" and "init P = Inr s0"
  shows "(\<forall>n tr. simulate_fl rnd n P = Some (Inr tr) \<longrightarrow>
            hd tr = (0, node_v s0) \<and>
            (\<exists>K. length tr = K + 2 \<and> dur_s P \<le> time_sum rnd (dt_s P) K \<and>
                 (\<forall>j<K. time_sum rnd (dt_s P) j < dur_s P))) \<and>
         (\<forall>k. dur_s P \<le> time_sum rnd (dt_s P) k \<longrightarrow> simulate_fl rnd (k + 1) P \<noteq> None) \<and>
         (0 < dt_s P \<and>
          (\<forall>j<nat \<lceil>dur_s P / dt_s P\<rceil>. rnd (real j * dt_s P + dt_s P) = real (Suc j) * dt_s P) \<longrightarrow>
            simulate_fl rnd (nat \<lceil>dur_s P / dt_s P\<rceil> + 1) P \<noteq> None \<and>
            (\<forall>n tr. simulate_fl rnd n P = Some (Inr tr) \<longrightarrow>
               length tr = nat \<lceil>dur_s P / dt_s P\<rceil> + 2 \<and>
               (dur_s P = 10 \<and> dt_s P = 1 \<longrightarrow> length tr = 12)))"
proof -
  note a0 = at_pass_init[OF assms(2), of rnd]
  have rows: "\<exists>K. length tr = K + 2 \<and> dur_s P \<le> time_sum rnd (dt_s P) K \<and>
                 (\<forall>j<K. time_sum rnd (dt_s P) j < dur_s P)"
    and first: "hd tr = (0, node_v s0)"
    if "simulate_fl rnd n P = Some (Inr tr)" for n tr
  proof -
    from that assms(2) obtain s' where r: "run_loop_fl rnd n P s0 = Some (Inr s')"
      and tr: "tr = log_l s'"
      by (auto simp: simulate_fl_Inr_iff)
    from run_loop_fl_rows[OF r a0 assms(1)]
    show "\<exists>K. length tr = K + 2 \<and> dur_s P \<le> time_sum rnd (dt_s P) K \<and>
                 (\<forall>j<K. time_sum rnd (dt_s P) j < dur_s P)"
      by (simp add: tr)
    from run_loop_fl_hd[OF r] init_Inr_D(6)[OF assms(2)]
    show "hd tr = (0, node_v s0)" by (simp add: tr)
  qed
  have ends: "simulate_fl rnd (k + 1) P \<noteq> None"
    if "dur_s P \<le> time_sum rnd (dt_s P) k" for k
    using run_loop_fl_enough[OF a0 that, of "k + 1"]
    by (simp add: simulate_fl_None_iff assms(2))
  have exact: "simulate_fl rnd (nat \<lceil>dur_s P / dt_s P\<rceil> + 1) P \<noteq> None \<and>
            (\<forall>n tr. simulate_fl rnd n P = Some (Inr tr) \<longrightarrow>
               length tr = nat \<lceil>dur_s P / dt_s P\<rceil> + 2 \<and>
               (dur_s P = 10 \<and> dt_s P = 1 \<longrightarrow> length tr = 12))"
    if dt: "0 < dt_s P"
      and ex: "\<forall>j<nat \<lceil>dur_s P / dt_s P\<rceil>.
                 rnd (real j * dt_s P + dt_s P) = real (Suc j) * dt_s P"
  proof -
    let ?N = "nat \<lceil>dur_s P / dt_s P\<rceil>"
    note fr = exact_first_reach[OF ex dt]
    have len: "length tr = ?N + 2" if "simulate_fl rnd n P = Some (Inr tr)" for n tr
    proof -
      from rows[OF that] obtain K where K: "length tr = K + 2"
        "dur_s P \<le> time_sum rnd (dt_s P) K" "\<forall>j<K. time_sum rnd (dt_s P) j < dur_s P"
        by blast
      have "\<not> K < ?N" using fr(2)[of K] K(2) by auto
      moreover have "\<not> ?N < K" using fr(1) K(3) by auto
      ultimately show ?thesis using K(1) by simp
    qed
    have "length tr = 12"
      if "simulate_fl rnd n P = Some (Inr tr)" "dur_s P = 10 \<and> dt_s P = 1" for n tr
      using len[OF that(1)] that(2) by simp
    with len ends[OF fr(1)] show ?thesis by blast
  qed
  from rows first ends exact show ?thesis by blast
qed

theorem trace_length_witness:
  "0 < dur_s (P_steady 1 10) \<and> init (P_steady 1 10) = Inr s_steady \<and>
   0 < dt_s (P_steady 1 10) \<and>
   simulate_fl (\<lambda>x. x) 11 (P_steady 1 10) =
     Some (Inr [(0, 1), (0, 1), (1, 1), (2, 1), (3, 1), (4, 1), (5, 1), (6, 1), (7, 1), (8, 1),
                (9, 1), (10, 1)]) \<and>
   hd [(0, 1), (0, 1), (1, 1), (2, 1), (3, 1), (4, 1), (5, 1), (6, 1), (7, 1), (8, 1),
       (9, 1), (10 :: real, 1 :: real)] = (0, node_v s_steady) \<and>
   dur_s (P_steady 1 10) \<le> time_sum (\<lambda>x. x) (dt_s (P_steady 1 10)) 10 \<and>
   time_sum (\<lambda>x. x) (dt_s (P_steady 1 10)) 9 < dur_s (P_steady 1 10) \<and>
   nat \<lceil>dur_s (P_steady 1 10) / dt_s (P_steady 1 10)\<rceil> + 2 = 12 \<and>
   simulate_fl (\<lambda>x. x) (nat \<lceil>dur_s (P_steady 1 10) / dt_s (P_steady 1 10)\<rceil> + 1) (P_steady 1 10)
     \<noteq> None"
proof -
  have a: "0 < dt_s (P_steady 1 10)" and b: "0 < dur_s (P_steady 1 10)"
    by (simp_all add: P_steady_def)
  have r: "simulate_fl (\<lambda>x. x) 11 (P_steady 1 10) =
     Some (Inr [(0, 1), (0, 1), (1, 1), (2, 1), (3, 1), (4, 1), (5, 1), (6, 1), (7, 1), (8, 1),
                (9, 1), (10, 1)])"
    unfolding simulate_fl_id by (simp add: run_defs P_steady_def eval_nat_numeral)
  have c: "nat \<lceil>dur_s (P_steady 1 10) / dt_s (P_steady 1 10)\<rceil> + 2 = 12"
    by (simp add: P_steady_def)
  have e: "\<forall>j<nat \<lceil>dur_s (P_steady 1 10) / dt_s (P_steady 1 10)\<rceil>.
      (\<lambda>x. x) (real j * dt_s (P_steady 1 10) + dt_s (P_steady 1 10))
        = real (Suc j) * dt_s (P_steady 1 10)"
    by (simp add: P_steady_def)
  have t: "dur_s (P_steady 1 10) \<le> time_sum (\<lambda>x. x) (dt_s (P_steady 1 10)) 10"
    "time_sum (\<lambda>x. x) (dt_s (P_steady 1 10)) 9 < dur_s (P_steady 1 10)"
    by (simp_all add: P_steady_def eval_nat_numeral)
  have h: "hd [(0, 1), (0, 1), (1, 1), (2, 1), (3, 1), (4, 1), (5, 1), (6, 1), (7, 1), (8, 1),
       (9, 1), (10 :: real, 1 :: real)] = (0, node_v s_steady)"
    by (simp add: s_steady_def)
  from trace_length[OF b init_steady, of "\<lambda>x. x"] a b r c e t h init_steady
  show ?thesis by blast
qed

theorem trace_length_floor_counterexample:
  "0 < dt_s (P_steady 3 10) \<and> 0 < dur_s (P_steady 3 10) \<and>
   simulate 5 (P_steady 3 10) = Some (Inr [(0, 1), (0, 1), (3, 1), (6, 1), (9, 1), (12, 1)]) \<and>
   simulate_fl (\<lambda>x. x) 5 (P_steady 3 10) =
     Some (Inr [(0, 1), (0, 1), (3, 1), (6, 1), (9, 1), (12, 1)]) \<and>
   length [(0, 1), (0, 1), (3, 1), (6, 1), (9, 1), (12 :: real, 1 :: real)] = 6 \<and>
   nat \<lfloor>dur_s (P_steady 3 10) / dt_s (P_steady 3 10)\<rfloor> + 2 = 5"
proof -
  have "\<lfloor>10 / 3 :: real\<rfloor> = 3" by (simp add: floor_eq_iff)
  moreover have "simulate 5 (P_steady 3 10) =
      Some (Inr [(0, 1), (0, 1), (3, 1), (6, 1), (9, 1), (12, 1)])"
    by (simp add: run_defs P_steady_def eval_nat_numeral)
  ultimately show ?thesis by (simp add: simulate_fl_id) (simp add: P_steady_def)
qed

section \<open>After the load is off\<close>







end
